theory Spec2Isabelle
  imports Main "HOL-Library.Word"
begin

unbundle bit_operations_syntax

section \<open>The HARP parser of \<^verbatim>\<open>src/harp_parser.py\<close>, as HOL functions\<close>

text \<open>
  The input of \<^verbatim>\<open>HarpParser.to_list\<close> is the content of a file, a Python
  \<^verbatim>\<open>bytes\<close> object: a list of bytes. Indexing a \<^verbatim>\<open>bytes\<close> object gives
  a Python integer between 0 and 255; Python integers are unbounded, so every quantity
  computed from a byte is an \<^typ>\<open>int\<close> or a \<^typ>\<open>nat\<close> here and nothing wraps
  around.
\<close>

type_synonym byte = "8 word"

subsection \<open>Python values and exceptions\<close>

text \<open>
  The exceptions the parser can raise. \<^verbatim>\<open>KeyError\<close> carries the key that was
  looked up; \<^verbatim>\<open>StructError\<close> is \<^verbatim>\<open>struct.error\<close>.
\<close>

datatype error = IndexError | TypeError | ZeroDivisionError | KeyError byte | StructError

text \<open>
  Python floats are kept symbolic: a value of \<open>pyfloat\<close> records which double-precision
  operation is applied to which operands and no rounding is evaluated. \<open>FloatOfInt i\<close> is
  \<^verbatim>\<open>float(i)\<close>, \<open>FloatLit m e\<close> the literal \<^verbatim>\<open>m e\<close> (\<open>FloatLit 32 (-6)\<close> is
  \<^verbatim>\<open>32e-6\<close>), \<open>Float32 w\<close> the IEEE binary32 value with bit pattern \<open>w\<close> as
  \<^verbatim>\<open>struct\<close> widens it to a double, \<open>FAdd\<close> and \<open>FMul\<close> the double-precision
  sum and product.
\<close>

datatype pyfloat =
    FloatNaN
  | FloatOfInt int
  | FloatLit int int
  | Float32 "32 word"
  | FAdd pyfloat pyfloat
  | FMul pyfloat pyfloat

text \<open>
  An entry of an output row, or an unpacked value: a Python integer or a float. A row of
  the result is the Python list \<^verbatim>\<open>[message_type, message_address, timestamp] + elements\<close>,
  a list of such entries.
\<close>

datatype pyval = PInt int | PFloat pyfloat

text \<open>\<^verbatim>\<open>float(v)\<close>\<close>

fun py_float :: "pyval \<Rightarrow> pyfloat" where
  "py_float (PInt i) = FloatOfInt i"
| "py_float (PFloat f) = f"

text \<open>
  \<^verbatim>\<open>xs[i]\<close> for an index that is not negative: \<^verbatim>\<open>IndexError\<close> out of range.
\<close>

definition py_index :: "'a list \<Rightarrow> nat \<Rightarrow> error + 'a" where
  "py_index xs i = (if i < length xs then Inr (xs ! i) else Inl IndexError)"

text \<open>
  \<^verbatim>\<open>xs[a:b]\<close> for bounds that are not negative: the slice is clipped to the
  sequence and never raises; it is empty when \<open>b \<le> a\<close>.
\<close>

definition py_slice :: "'a list \<Rightarrow> nat \<Rightarrow> nat \<Rightarrow> 'a list" where
  "py_slice xs a b = take (b - a) (drop a xs)"

text \<open>\<^verbatim>\<open>a // b\<close> on integers: floor division, \<^verbatim>\<open>ZeroDivisionError\<close> for \<open>b = 0\<close>.\<close>

definition py_floordiv :: "int \<Rightarrow> int \<Rightarrow> error + int" where
  "py_floordiv a b = (if b = 0 then Inl ZeroDivisionError else Inr (a div b))"

text \<open>
  \<^verbatim>\<open>x in xs\<close> where \<open>xs\<close> is a list or \<^verbatim>\<open>None\<close>: \<^verbatim>\<open>None\<close> is not
  iterable and the test raises \<^verbatim>\<open>TypeError\<close>.
\<close>

fun py_in :: "int \<Rightarrow> int list option \<Rightarrow> error + bool" where
  "py_in x None = Inl TypeError"
| "py_in x (Some xs) = Inr (x \<in> set xs)"

subsection \<open>\<^verbatim>\<open>struct.unpack\<close> for little-endian standard formats\<close>

text \<open>
  The parser only builds formats that start with \<^verbatim>\<open><\<close> (little-endian, standard
  sizes, no padding) followed by format characters among \<^verbatim>\<open>BbHhIiQqf\<close>. The model
  of \<^verbatim>\<open>struct\<close> covers these formats: the size of each format character, the
  value it reads from its bytes, and the \<^verbatim>\<open>struct.error\<close> raised when the buffer
  is not exactly as long as the format demands or a character is not a format character.
  A format without the \<^verbatim>\<open><\<close> prefix (native alignment) is never built by the
  parser; the model maps it to \<open>StructError\<close> as well.
\<close>

text \<open>The unsigned value of a little-endian byte string: the first byte is the least significant.\<close>

fun le_uint :: "byte list \<Rightarrow> int" where
  "le_uint [] = 0"
| "le_uint (b # bs) = uint b + 256 * le_uint bs"

text \<open>The two's complement value of a little-endian byte string.\<close>

definition le_sint :: "byte list \<Rightarrow> int" where
  "le_sint bs =
     (if 2 * le_uint bs < 2 ^ (8 * length bs) then le_uint bs
      else le_uint bs - 2 ^ (8 * length bs))"

text \<open>The numeric class of the value a format character reads.\<close>

datatype num_class = UnsignedInt | SignedInt | IEEEFloat

text \<open>
  The format characters of \<^verbatim>\<open>struct\<close> that the parser uses, each with the number
  of bytes it reads in standard size and the class of its value; \<open>None\<close> for any other
  character.
\<close>

definition fmt_descr :: "char \<Rightarrow> (nat \<times> num_class) option" where
  "fmt_descr c =
     (if c = CHR ''B'' then Some (1, UnsignedInt)
      else if c = CHR ''b'' then Some (1, SignedInt)
      else if c = CHR ''H'' then Some (2, UnsignedInt)
      else if c = CHR ''h'' then Some (2, SignedInt)
      else if c = CHR ''I'' then Some (4, UnsignedInt)
      else if c = CHR ''i'' then Some (4, SignedInt)
      else if c = CHR ''Q'' then Some (8, UnsignedInt)
      else if c = CHR ''q'' then Some (8, SignedInt)
      else if c = CHR ''f'' then Some (4, IEEEFloat)
      else None)"

text \<open>The value of a class read from the bytes of one item.\<close>

fun unpack_value :: "num_class \<Rightarrow> byte list \<Rightarrow> pyval" where
  "unpack_value UnsignedInt bs = PInt (le_uint bs)"
| "unpack_value SignedInt bs = PInt (le_sint bs)"
| "unpack_value IEEEFloat bs = PFloat (Float32 (word_of_int (le_uint bs)))"

text \<open>The total size of a sequence of format characters; \<open>None\<close> for a bad character.\<close>

fun calcsize :: "string \<Rightarrow> nat option" where
  "calcsize [] = Some 0"
| "calcsize (c # cs) =
     (case fmt_descr c of
        None \<Rightarrow> None
      | Some (n, cls) \<Rightarrow> (case calcsize cs of None \<Rightarrow> None | Some m \<Rightarrow> Some (n + m)))"

text \<open>
  The values a sequence of format characters reads from a buffer, left to right. It is
  only used once \<open>calcsize\<close> has accepted the characters.
\<close>

fun unpack_values :: "string \<Rightarrow> byte list \<Rightarrow> pyval list" where
  "unpack_values [] buf = []"
| "unpack_values (c # cs) buf =
     (case fmt_descr c of
        None \<Rightarrow> []
      | Some (n, cls) \<Rightarrow> unpack_value cls (take n buf) # unpack_values cs (drop n buf))"

text \<open>
  \<^verbatim>\<open>struct.unpack(format, buf)\<close>: \<^verbatim>\<open>struct.error\<close> unless the buffer is
  exactly as long as the format demands.
\<close>

definition struct_unpack :: "string \<Rightarrow> byte list \<Rightarrow> error + pyval list" where
  "struct_unpack format buf =
     (case format of
        [] \<Rightarrow> Inl StructError
      | order # codes \<Rightarrow>
          if order \<noteq> CHR ''<'' then Inl StructError
          else (case calcsize codes of
                  None \<Rightarrow> Inl StructError
                | Some n \<Rightarrow>
                    if n \<noteq> length buf then Inl StructError
                    else Inr (unpack_values codes buf)))"

subsection \<open>\<^verbatim>\<open>PayloadLookup\<close>\<close>

text \<open>The dictionary \<^verbatim>\<open>DATA_CHARS\<close>, from a masked payload type to a format character.\<close>

definition DATA_CHARS :: "byte \<rightharpoonup> char" where
  "DATA_CHARS =
     [0x01 \<mapsto> CHR ''B'',
      0x81 \<mapsto> CHR ''b'',
      0x02 \<mapsto> CHR ''H'',
      0x82 \<mapsto> CHR ''h'',
      0x04 \<mapsto> CHR ''I'',
      0x84 \<mapsto> CHR ''i'',
      0x08 \<mapsto> CHR ''Q'',
      0x88 \<mapsto> CHR ''q'',
      0x44 \<mapsto> CHR ''f'']"

text \<open>
  \<^verbatim>\<open>__get_data_char\<close>: \<^verbatim>\<open>self.DATA_CHARS[(payload & 0xC0) | (payload & 0x0F)]\<close>,
  a \<^verbatim>\<open>KeyError\<close> when the key is not in the dictionary.
\<close>

definition get_data_char :: "byte \<Rightarrow> error + char" where
  "get_data_char payload =
     (let key = (payload AND 0xC0) OR (payload AND 0x0F)
      in case DATA_CHARS key of None \<Rightarrow> Inl (KeyError key) | Some c \<Rightarrow> Inr c)"

text \<open>
  \<^verbatim>\<open>get_payload_string\<close>. \<open>has_timestamp\<close> is the integer
  \<^verbatim>\<open>payload_type & 0x10\<close>, tested for truth; \<^verbatim>\<open>char_code * count\<close> repeats the
  character \<open>count\<close> times and is the empty string for a negative \<open>count\<close>. The
  \<^verbatim>\<open>lru_cache\<close> decorator does not change what the function returns.
\<close>

definition get_payload_string :: "byte \<Rightarrow> int \<Rightarrow> byte \<Rightarrow> error + string" where
  "get_payload_string has_timestamp count payload =
     (case get_data_char payload of
        Inl e \<Rightarrow> Inl e
      | Inr char_code \<Rightarrow>
          if has_timestamp \<noteq> 0 then Inr (''<IH'' @ replicate (nat count) char_code)
          else Inr (''<'' @ replicate (nat count) char_code))"

subsection \<open>\<^verbatim>\<open>HarpParser\<close>\<close>

definition HAS_TIMESTAMP :: byte where
  "HAS_TIMESTAMP = 0x10"

definition SIZE_MASK :: byte where
  "SIZE_MASK = 0x0F"

definition MICROSECOND_TO_SECOND :: pyfloat where
  "MICROSECOND_TO_SECOND = FloatLit 32 (-6)"

definition NAN :: pyfloat where
  "NAN = FloatNaN"

text \<open>
  \<^verbatim>\<open>__unpack_message_types_to_process\<close>. The \<^verbatim>\<open>return\<close> statement stands inside
  the last \<^verbatim>\<open>if\<close>: when \<open>processEvent\<close> is false the function ends without a
  \<^verbatim>\<open>return\<close> and its value is \<^verbatim>\<open>None\<close>.
\<close>

definition unpack_message_types_to_process :: "bool \<Rightarrow> bool \<Rightarrow> bool \<Rightarrow> int list option" where
  "unpack_message_types_to_process processRead processWrite processEvent =
     (let types_to_process = [];
          types_to_process = (if processRead then types_to_process @ [1] else types_to_process);
          types_to_process = (if processWrite then types_to_process @ [2] else types_to_process)
      in if processEvent then Some (types_to_process @ [3]) else None)"

text \<open>
  Sequencing of statements that may raise: the exception of the first ends the
  computation, otherwise the second runs with the first one's value.
\<close>

definition and_then :: "error + 'a \<Rightarrow> ('a \<Rightarrow> error + 'b) \<Rightarrow> error + 'b" where
  "and_then m f = (case m of Inl e \<Rightarrow> Inl e | Inr x \<Rightarrow> f x)"

text \<open>
  The body of the \<^verbatim>\<open>if message_type in types_to_process\<close> branch of
  \<^verbatim>\<open>to_list\<close> (lines 152 to 176): the row appended for one message.
\<close>

definition decode_message :: "int \<Rightarrow> byte list \<Rightarrow> error + pyval list" where
  "decode_message message_type message =
     and_then (py_index message 2) (\<lambda>message_address.
     and_then (py_index message 4) (\<lambda>payload_type.
     let payload = drop 5 message;
         payload_has_timestamp = payload_type AND HAS_TIMESTAMP
     in
     and_then (py_floordiv (int (length payload) - (if payload_has_timestamp \<noteq> 0 then 6 else 0))
                 (uint (payload_type AND SIZE_MASK))) (\<lambda>payload_length.
     and_then (get_payload_string payload_has_timestamp payload_length payload_type) (\<lambda>format.
     and_then (struct_unpack format payload) (\<lambda>unpacked_data.
     if payload_has_timestamp \<noteq> 0 then
       and_then (py_index unpacked_data 0) (\<lambda>u0.
       and_then (py_index unpacked_data 1) (\<lambda>u1.
       let seconds = py_float u0;
           microseconds = py_float u1;
           timestamp = FAdd seconds (FMul microseconds MICROSECOND_TO_SECOND)
       in Inr ([PInt message_type, PInt (uint message_address), PFloat timestamp]
                @ drop 2 unpacked_data)))
     else Inr ([PInt message_type, PInt (uint message_address), PFloat NAN]
                @ unpacked_data))))))"

text \<open>
  The part of the loop body after the slice (lines 147 to 176): the rows appended to
  \<^verbatim>\<open>processed_data\<close> for one message, none when its type is not to be processed.
\<close>

definition process_message :: "int list option \<Rightarrow> byte list \<Rightarrow> error + pyval list list" where
  "process_message types_to_process message =
     and_then (py_index message 0) (\<lambda>message_type.
     and_then (py_in (uint message_type) types_to_process) (\<lambda>retained.
     if retained then
       and_then (decode_message (uint message_type) message) (\<lambda>row. Inr [row])
     else Inr []))"

text \<open>
  The \<^verbatim>\<open>while\<close> loop of \<^verbatim>\<open>to_list\<close> (lines 140 to 176), with the loop variables
  \<^verbatim>\<open>next_message_start\<close> and \<^verbatim>\<open>processed_data\<close> as arguments.
\<close>

function to_list_loop ::
  "int list option \<Rightarrow> byte list \<Rightarrow> nat \<Rightarrow> pyval list list \<Rightarrow> error + pyval list list" where
  "to_list_loop types_to_process data next_message_start processed_data =
     (if next_message_start < length data then
        (case py_index data (next_message_start + 1) of
           Inl e \<Rightarrow> Inl e
         | Inr len_byte \<Rightarrow>
             (let message_start = next_message_start;
                  message_end = message_start + unat len_byte + 1;
                  message = py_slice data message_start message_end
              in case process_message types_to_process message of
                   Inl e \<Rightarrow> Inl e
                 | Inr rows \<Rightarrow>
                     to_list_loop types_to_process data (message_end + 1)
                       (processed_data @ rows)))
      else Inr processed_data)"
  by pat_completeness auto
termination
  by (relation "measure (\<lambda>(t, data, n, p). length data - n)") auto

text \<open>
  \<^verbatim>\<open>to_list\<close>, from the bytes that \<^verbatim>\<open>__read_data\<close> returns for the file.
\<close>

definition to_list :: "byte list \<Rightarrow> bool \<Rightarrow> bool \<Rightarrow> bool \<Rightarrow> error + pyval list list" where
  "to_list data processRead processWrite processEvent =
     to_list_loop (unpack_message_types_to_process processRead processWrite processEvent)
       data 0 []"

text \<open>
  The frame scanner is the part of the loop that moves the cursor (lines 140 to 146),
  taken alone: the frames it cuts out, each with its \<open>message_start\<close> and
  \<open>message_end\<close>, and the exception that ended the scan, if one did.
\<close>

function scan_frames :: "byte list \<Rightarrow> nat \<Rightarrow> (nat \<times> nat \<times> byte list) list \<times> error option" where
  "scan_frames data next_message_start =
     (if next_message_start < length data then
        (case py_index data (next_message_start + 1) of
           Inl e \<Rightarrow> ([], Some e)
         | Inr len_byte \<Rightarrow>
             (let message_start = next_message_start;
                  message_end = message_start + unat len_byte + 1;
                  rest = scan_frames data (message_end + 1)
              in ((message_start, message_end, py_slice data message_start message_end) # fst rest,
                  snd rest)))
      else ([], None))"
  by pat_completeness auto
termination
  by (relation "measure (\<lambda>(data, n). length data - n)") auto

text \<open>
  What the loop does with the scanner's frames: each is processed in turn, the first
  exception ends the run, and an exception of the scanner is raised after the frames
  before it have been processed.
\<close>

fun process_frames ::
  "int list option \<Rightarrow> (nat \<times> nat \<times> byte list) list \<Rightarrow> error option \<Rightarrow> pyval list list
     \<Rightarrow> error + pyval list list" where
  "process_frames types_to_process [] raised processed_data =
     (case raised of None \<Rightarrow> Inr processed_data | Some e \<Rightarrow> Inl e)"
| "process_frames types_to_process ((message_start, message_end, message) # frames) raised
       processed_data =
     (case process_message types_to_process message of
        Inl e \<Rightarrow> Inl e
      | Inr rows \<Rightarrow> process_frames types_to_process frames raised (processed_data @ rows))"

subsection \<open>The recurrence of the frame scanner, as the specification words it\<close>

text \<open>
  A list of frames follows the recurrence from the cursor \<open>next_start\<close> when each frame
  starts at the cursor, ends at \<open>frame_start + buffer[frame_start + 1] + 1\<close>, holds the
  bytes of the buffer at the offsets from \<open>frame_start\<close> up to \<open>frame_end\<close> (as far as
  the buffer has them), and moves the cursor to \<open>frame_end + 1\<close>.
\<close>

fun follows_recurrence :: "byte list \<Rightarrow> nat \<Rightarrow> (nat \<times> nat \<times> byte list) list \<Rightarrow> bool" where
  "follows_recurrence buffer next_start [] = True"
| "follows_recurrence buffer next_start ((frame_start, frame_end, frame) # frames) =
     (frame_start = next_start \<and>
      frame_start + 1 < length buffer \<and>
      frame_end = frame_start + unat (buffer ! (frame_start + 1)) + 1 \<and>
      frame = map (\<lambda>i. buffer ! i) [frame_start ..< min frame_end (length buffer)] \<and>
      follows_recurrence buffer (frame_end + 1) frames)"

text \<open>The cursor after a list of frames scanned from \<open>next_start\<close>.\<close>

fun final_cursor :: "nat \<Rightarrow> (nat \<times> nat \<times> byte list) list \<Rightarrow> nat" where
  "final_cursor next_start [] = next_start"
| "final_cursor next_start ((frame_start, frame_end, frame) # frames) =
     final_cursor (frame_end + 1) frames"

subsection \<open>Frames laid out one after the other\<close>

text \<open>
  A chunk of the buffer is laid out as a frame when its length byte counts the bytes
  after it: the message is the chunk without its last byte, and the scanner's cursor
  moves from the start of the chunk to its end.
\<close>

definition framed :: "byte list \<Rightarrow> bool" where
  "framed chunk = (2 \<le> length chunk \<and> length chunk = unat (chunk ! 1) + 2)"

text \<open>The message type of a chunk is among those to process.\<close>

definition retained :: "bool \<Rightarrow> bool \<Rightarrow> byte list \<Rightarrow> bool" where
  "retained processRead processWrite chunk =
     ((processRead \<and> chunk ! 0 = 1) \<or> (processWrite \<and> chunk ! 0 = 2) \<or> chunk ! 0 = 3)"

text \<open>The row of a chunk laid out as a frame: the row of its message.\<close>

definition chunk_row :: "byte list \<Rightarrow> error + pyval list" where
  "chunk_row chunk = decode_message (uint (chunk ! 0)) (butlast chunk)"

section \<open>Properties\<close>

subsection \<open>Unfolding the loop and the scanner\<close>

declare to_list_loop.simps [simp del] scan_frames.simps [simp del]

lemmas eval_defs =
  to_list_def unpack_message_types_to_process_def to_list_loop.simps scan_frames.simps
  py_index_def py_slice_def process_message_def and_then_def decode_message_def
  HAS_TIMESTAMP_def SIZE_MASK_def py_floordiv_def get_payload_string_def get_data_char_def
  DATA_CHARS_def struct_unpack_def fmt_descr_def le_sint_def NAN_def MICROSECOND_TO_SECOND_def

lemma and_then_simps [simp]:
  "and_then (Inl e) f = Inl e" "and_then (Inr x) f = f x"
  by (simp_all add: and_then_def)

lemma to_list_loop_end: "length data \<le> n \<Longrightarrow> to_list_loop t data n acc = Inr acc"
  by (simp add: to_list_loop.simps)

lemma to_list_loop_cut: "Suc n = length data \<Longrightarrow> to_list_loop t data n acc = Inl IndexError"
  by (subst to_list_loop.simps) (auto simp: py_index_def)

lemma to_list_loop_step:
  "Suc n < length data \<Longrightarrow>
   to_list_loop t data n acc =
     (case process_message t (py_slice data n (Suc (n + unat (data ! Suc n)))) of
        Inl e \<Rightarrow> Inl e
      | Inr rows \<Rightarrow> to_list_loop t data (Suc (Suc (n + unat (data ! Suc n)))) (acc @ rows))"
  by (subst to_list_loop.simps) (simp add: py_index_def Let_def cong: sum.case_cong)

lemma scan_frames_end: "length data \<le> n \<Longrightarrow> scan_frames data n = ([], None)"
  by (simp add: scan_frames.simps)

lemma scan_frames_cut: "Suc n = length data \<Longrightarrow> scan_frames data n = ([], Some IndexError)"
  by (subst scan_frames.simps) (auto simp: py_index_def)

lemma scan_frames_step:
  "Suc n < length data \<Longrightarrow>
   scan_frames data n =
     ((n, Suc (n + unat (data ! Suc n)), py_slice data n (Suc (n + unat (data ! Suc n))))
        # fst (scan_frames data (Suc (Suc (n + unat (data ! Suc n))))),
      snd (scan_frames data (Suc (Suc (n + unat (data ! Suc n))))))"
  by (subst scan_frames.simps) (simp add: py_index_def Let_def)

lemma cursor_cases:
  obtains (finished) "length data \<le> n" | (short) "Suc n = length data" | (step) "Suc n < length data"
  by linarith

text \<open>
  The loop of \<^verbatim>\<open>to_list\<close> processes the frames of the scanner in their order, and
  raises the scanner's exception after them.
\<close>

lemma to_list_loop_scan_frames:
  "to_list_loop t data n acc =
     process_frames t (fst (scan_frames data n)) (snd (scan_frames data n)) acc"
proof (induction t data n acc rule: to_list_loop.induct)
  case (1 t data n acc)
  show ?case
  proof (cases data n rule: cursor_cases)
    case finished
    then show ?thesis by (simp add: to_list_loop_end scan_frames_end)
  next
    case short
    then show ?thesis by (simp add: to_list_loop_cut scan_frames_cut)
  next
    case step
    then have lt: "n < length data" by simp
    have ix: "py_index data (n + 1) = Inr (data ! Suc n)"
      using step by (simp add: py_index_def)
    show ?thesis
    proof (cases "process_message t (py_slice data n (Suc (n + unat (data ! Suc n))))")
      case (Inl e)
      then show ?thesis
        using step by (simp add: to_list_loop_step scan_frames_step)
    next
      case (Inr rows)
      then have "to_list_loop t data (n + unat (data ! Suc n) + 1 + 1) (acc @ rows) =
            process_frames t (fst (scan_frames data (n + unat (data ! Suc n) + 1 + 1)))
              (snd (scan_frames data (n + unat (data ! Suc n) + 1 + 1))) (acc @ rows)"
        using "1.IH" [OF lt ix refl refl refl] by simp
      then show ?thesis
        using step Inr by (simp add: to_list_loop_step scan_frames_step)
    qed
  qed
qed

lemma py_slice_nth:
  "py_slice xs a b = map (\<lambda>i. xs ! i) [a ..< min b (length xs)]"
  by (auto simp: py_slice_def list_eq_iff_nth_eq min_def)

lemma follows_recurrence_scan:
  "follows_recurrence data n (fst (scan_frames data n))"
proof (induction data n rule: scan_frames.induct)
  case (1 data n)
  show ?case
  proof (cases data n rule: cursor_cases)
    case finished
    then show ?thesis by (simp add: scan_frames_end)
  next
    case short
    then show ?thesis by (simp add: scan_frames_cut)
  next
    case step
    then have lt: "n < length data" by simp
    have ix: "py_index data (n + 1) = Inr (data ! (n + 1))"
      using step by (simp add: py_index_def)
    have "follows_recurrence data (n + unat (data ! (n + 1)) + 1 + 1)
            (fst (scan_frames data (n + unat (data ! (n + 1)) + 1 + 1)))"
      using "1.IH" [OF lt ix refl refl] .
    then show ?thesis
      using step by (simp add: scan_frames_step py_slice_nth)
  qed
qed

lemma final_cursor_scan:
  "snd (scan_frames data n) =
     (if length data \<le> final_cursor n (fst (scan_frames data n)) then None else Some IndexError)
   \<and> (length data \<le> final_cursor n (fst (scan_frames data n))
      \<or> final_cursor n (fst (scan_frames data n)) + 1 = length data)"
proof (induction data n rule: scan_frames.induct)
  case (1 data n)
  show ?case
  proof (cases data n rule: cursor_cases)
    case finished
    then show ?thesis by (simp add: scan_frames_end)
  next
    case short
    then show ?thesis by (simp add: scan_frames_cut)
  next
    case step
    then have lt: "n < length data" by simp
    have ix: "py_index data (n + 1) = Inr (data ! (n + 1))"
      using step by (simp add: py_index_def)
    show ?thesis
      using "1.IH" [OF lt ix refl refl] step by (simp add: scan_frames_step)
  qed
qed

lemma follows_recurrence_sorted:
  "follows_recurrence data n frames \<Longrightarrow>
   sorted_wrt (<) (map fst frames) \<and> (\<forall>f \<in> set frames. n \<le> fst f)"
proof (induction frames arbitrary: n)
  case Nil
  then show ?case by simp
next
  case (Cons f frames)
  obtain a b m where f: "f = (a, b, m)" by (cases f)
  from Cons.prems f have rest: "follows_recurrence data (b + 1) frames" and a: "a = n"
    and b: "a < b" by auto
  from Cons.IH [OF rest] show ?case using f a b by fastforce
qed

subsection \<open>Unpacking a payload\<close>

lemma calcsize_replicate:
  "fmt_descr c = Some (w, cls) \<Longrightarrow> calcsize (replicate n c) = Some (n * w)"
  by (induction n) simp_all

lemma map_upt_shift:
  "map f [Suc 0 ..< Suc n] = map (\<lambda>i. f (Suc i)) [0 ..< n]"
  by (simp add: map_Suc_upt [symmetric] del: upt_Suc)

lemma unpack_values_replicate:
  "fmt_descr c = Some (w, cls) \<Longrightarrow>
   unpack_values (replicate n c) buf =
     map (\<lambda>i. unpack_value cls (take w (drop (i * w) buf))) [0 ..< n]"
proof (induction n arbitrary: buf)
  case 0
  then show ?case by simp
next
  case (Suc n)
  have "map (\<lambda>i. unpack_value cls (take w (drop (i * w) buf))) [0 ..< Suc n] =
        unpack_value cls (take w buf)
          # map (\<lambda>i. unpack_value cls (take w (drop (i * w) buf))) [Suc 0 ..< Suc n]"
    by (simp add: upt_rec [of 0] del: upt_Suc)
  also have "map (\<lambda>i. unpack_value cls (take w (drop (i * w) buf))) [Suc 0 ..< Suc n] =
        map (\<lambda>i. unpack_value cls (take w (drop (i * w) (drop w buf)))) [0 ..< n]"
    by (simp add: map_upt_shift add.commute del: upt_Suc)
  finally show ?case
    using Suc by simp
qed

lemma fmt_descr_IH:
  "fmt_descr (CHR ''I'') = Some (4, UnsignedInt)" "fmt_descr (CHR ''H'') = Some (2, UnsignedInt)"
  by (simp_all add: fmt_descr_def)

lemma struct_unpack_plain:
  "fmt_descr c = Some (w, cls) \<Longrightarrow>
   struct_unpack (CHR ''<'' # replicate n c) buf =
     (if n * w = length buf
      then Inr (map (\<lambda>i. unpack_value cls (take w (drop (i * w) buf))) [0 ..< n])
      else Inl StructError)"
  by (simp add: struct_unpack_def calcsize_replicate unpack_values_replicate)

lemma struct_unpack_stamped:
  "fmt_descr c = Some (w, cls) \<Longrightarrow>
   struct_unpack (CHR ''<'' # CHR ''I'' # CHR ''H'' # replicate n c) buf =
     (if 6 + n * w = length buf
      then Inr (PInt (le_uint (take 4 buf)) # PInt (le_uint (take 2 (drop 4 buf)))
                # map (\<lambda>i. unpack_value cls (take w (drop (6 + i * w) buf))) [0 ..< n])
      else Inl StructError)"
  by (simp add: struct_unpack_def calcsize_replicate unpack_values_replicate fmt_descr_IH
      add.commute)

lemma masked_key_width:
  "((p AND 0xC0) OR (p AND 0x0F)) AND 0x0F = p AND (0x0F :: byte)"
  by (simp add: bit.conj_disj_distrib2 and.assoc)

lemma DATA_CHARS_descr:
  "DATA_CHARS k = Some c \<Longrightarrow> \<exists>cls. fmt_descr c = Some (unat (k AND 0x0F), cls)"
  by (auto simp: DATA_CHARS_def fmt_descr_def split: if_splits)

lemma get_data_char_descr:
  assumes "get_data_char p = Inr c"
  shows "\<exists>cls. fmt_descr c = Some (unat (p AND SIZE_MASK), cls)"
proof -
  from assms have "DATA_CHARS ((p AND 0xC0) OR (p AND 0x0F)) = Some c"
    by (simp add: get_data_char_def Let_def split: option.splits)
  from DATA_CHARS_descr [OF this] show ?thesis
    by (simp add: masked_key_width SIZE_MASK_def)
qed

lemma fmt_descr_pos: "fmt_descr c = Some (w, cls) \<Longrightarrow> 0 < w"
  by (auto simp: fmt_descr_def split: if_splits)

lemma nat_count_plain: "nat (int L div int w) = L div w"
  by (simp add: zdiv_int [symmetric])

lemma nat_count_stamped:
  "0 < w \<Longrightarrow> nat ((int L - 6) div int w) = (L - 6) div w"
proof (cases "6 \<le> L")
  case True
  then have "int L - 6 = int (L - 6)" by simp
  then show ?thesis by (simp add: zdiv_int [symmetric] del: of_nat_diff)
next
  case False
  assume "0 < w"
  with False have "(int L - 6) div int w < 0"
    by (simp add: div_neg_pos_less0)
  with False show ?thesis by simp
qed

lemma exact_count: "0 < w \<Longrightarrow> (L div w * w = L) = (L mod (w::nat) = 0)"
  by (metis div_mult_mod_eq add_cancel_right_right mod_div_mult_eq mult.commute
      add_cancel_left_right mod_mult_self1_is_0)

lemma exact_count_stamped:
  "0 < w \<Longrightarrow> (6 + (L - 6) div w * w = L) = (6 \<le> L \<and> (L - 6) mod (w::nat) = 0)"
proof (cases "6 \<le> L")
  case True
  assume "0 < w"
  from exact_count [OF this, of "L - 6"] True show ?thesis by auto
next
  case False
  then show ?thesis by simp
qed

lemma nat_count_message:
  assumes "0 < w"
  shows "nat ((int (M - 5) - 6) div int w) = (M - 11) div w"
proof -
  have "nat ((int (M - 5) - 6) div int w) = (M - 5 - 6) div w"
    by (rule nat_count_stamped [OF assms])
  then show ?thesis by simp
qed

lemma exact_count_message:
  assumes "0 < w"
  shows "(6 + (M - 11) div w * w = M - 5) = (11 \<le> M \<and> (M - 11) mod (w::nat) = 0)"
proof -
  have "(6 + (M - 5 - 6) div w * w = M - 5) = (6 \<le> M - 5 \<and> (M - 5 - 6) mod w = 0)"
    by (rule exact_count_stamped [OF assms])
  moreover have "M - 5 - 6 = M - 11" "(6 \<le> M - 5) = (11 \<le> M)"
    by auto
  ultimately show ?thesis by simp
qed

lemma le_uint_sum: "le_uint bs = (\<Sum>k<length bs. uint (bs ! k) * 256 ^ k)"
proof (induction bs)
  case Nil
  then show ?case by simp
next
  case (Cons b bs)
  have "(\<Sum>k<length (b # bs). uint ((b # bs) ! k) * 256 ^ k) =
        uint b + (\<Sum>k<length bs. uint (bs ! k) * 256 ^ Suc k)"
    by (simp add: sum.lessThan_Suc_shift del: sum.lessThan_Suc)
  also have "(\<Sum>k<length bs. uint (bs ! k) * 256 ^ Suc k) =
        256 * (\<Sum>k<length bs. uint (bs ! k) * 256 ^ k)"
    by (simp add: sum_distrib_left mult_ac)
  finally show ?case using Cons by simp
qed


lemma take_drop_Suc_nth:
  "a < length xs \<Longrightarrow> take (Suc k) (drop a xs) = xs ! a # take k (drop (Suc a) xs)"
  by (simp add: Cons_nth_drop_Suc [symmetric])

lemma seconds_bytes:
  assumes "11 \<le> length m"
  shows "le_uint (take 4 (drop 5 m)) =
     uint (m ! 5) + 256 * uint (m ! 6) + 65536 * uint (m ! 7) + 16777216 * uint (m ! 8)"
proof -
  have "take 4 (drop 5 m) = [m ! 5, m ! 6, m ! 7, m ! 8]"
    using assms by (simp add: eval_nat_numeral take_drop_Suc_nth)
  then show ?thesis by simp
qed

lemma ticks_bytes:
  assumes "11 \<le> length m"
  shows "le_uint (take 2 (drop 9 m)) = uint (m ! 9) + 256 * uint (m ! 10)"
proof -
  have "take 2 (drop 9 m) = [m ! 9, m ! 10]"
    using assms by (simp add: eval_nat_numeral take_drop_Suc_nth)
  then show ?thesis by simp
qed

text \<open>
  The row of a message of at least five bytes whose payload type is in the table: without
  and with the timestamp flag.
\<close>

lemma decode_message_plain:
  assumes len: "5 \<le> length message"
    and flag: "message ! 4 AND HAS_TIMESTAMP = 0"
    and c: "get_data_char (message ! 4) = Inr c"
    and d: "fmt_descr c = Some (w, cls)"
  shows "decode_message mt message =
    (if (length message - 5) mod w = 0
     then Inr ([PInt mt, PInt (uint (message ! 2)), PFloat NAN]
               @ map (\<lambda>i. unpack_value cls (take w (drop (5 + i * w) message)))
                   [0 ..< (length message - 5) div w])
     else Inl StructError)"
proof -
  define L where "L = length message - 5"
  from get_data_char_descr [OF c] d have w: "unat (message ! 4 AND SIZE_MASK) = w"
    by auto
  have pos: "0 < w" by (rule fmt_descr_pos [OF d])
  have nz: "uint (message ! 4 AND SIZE_MASK) = int w"
    by (subst uint_nat) (simp only: w)
  have ix: "py_index message 2 = Inr (message ! 2)" "py_index message 4 = Inr (message ! 4)"
    using len by (simp_all add: py_index_def)
  have fd: "py_floordiv (int (length (drop 5 message)) - 0) (uint (message ! 4 AND SIZE_MASK))
      = Inr (int (L div w))"
    using pos by (simp add: py_floordiv_def nz L_def zdiv_int)
  have fmt: "get_payload_string 0 (int (L div w)) (message ! 4)
      = Inr (CHR ''<'' # replicate (L div w) c)"
    by (simp add: get_payload_string_def c)
  have su: "struct_unpack (CHR ''<'' # replicate (L div w) c) (drop 5 message) =
     (if L mod w = 0
      then Inr (map (\<lambda>i. unpack_value cls (take w (drop (5 + i * w) message))) [0 ..< L div w])
      else Inl StructError)"
    using pos by (simp add: struct_unpack_plain [OF d] L_def [symmetric] exact_count add.commute)
  show ?thesis
    unfolding decode_message_def Let_def ix and_then_simps flag
    using fd fmt su by (simp add: L_def)
qed

lemma decode_message_stamped:
  assumes len: "5 \<le> length message"
    and flag: "message ! 4 AND HAS_TIMESTAMP \<noteq> 0"
    and c: "get_data_char (message ! 4) = Inr c"
    and d: "fmt_descr c = Some (w, cls)"
  shows "decode_message mt message =
    (if 11 \<le> length message \<and> (length message - 11) mod w = 0
     then Inr ([PInt mt, PInt (uint (message ! 2)),
                PFloat (FAdd (FloatOfInt (le_uint (take 4 (drop 5 message))))
                          (FMul (FloatOfInt (le_uint (take 2 (drop 9 message))))
                             MICROSECOND_TO_SECOND))]
               @ map (\<lambda>i. unpack_value cls (take w (drop (11 + i * w) message)))
                   [0 ..< (length message - 11) div w])
     else Inl StructError)"
proof -
  define n where "n = (length message - 11) div w"
  from get_data_char_descr [OF c] d have w: "unat (message ! 4 AND SIZE_MASK) = w"
    by auto
  have pos: "0 < w" by (rule fmt_descr_pos [OF d])
  have nz: "uint (message ! 4 AND SIZE_MASK) = int w"
    by (subst uint_nat) (simp only: w)
  have ix: "py_index message 2 = Inr (message ! 2)" "py_index message 4 = Inr (message ! 4)"
    using len by (simp_all add: py_index_def)
  have fd: "py_floordiv (int (length (drop 5 message)) - 6) (uint (message ! 4 AND SIZE_MASK))
      = Inr ((int (length message - 5) - 6) div int w)"
    using pos by (simp add: py_floordiv_def nz)
  have fmt: "get_payload_string (message ! 4 AND HAS_TIMESTAMP)
        ((int (length message - 5) - 6) div int w) (message ! 4)
      = Inr (CHR ''<'' # CHR ''I'' # CHR ''H'' # replicate n c)"
    using flag by (simp only: get_payload_string_def c n_def nat_count_message [OF pos]) simp
  have su: "struct_unpack (CHR ''<'' # CHR ''I'' # CHR ''H'' # replicate n c) (drop 5 message) =
     (if 11 \<le> length message \<and> (length message - 11) mod w = 0
      then Inr (PInt (le_uint (take 4 (drop 5 message)))
                # PInt (le_uint (take 2 (drop 9 message)))
                # map (\<lambda>i. unpack_value cls (take w (drop (11 + i * w) message))) [0 ..< n])
      else Inl StructError)"
  proof -
    have exact: "(6 + n * w = length (drop 5 message))
        = (11 \<le> length message \<and> (length message - 11) mod w = 0)"
      using exact_count_message [OF pos, of "length message"] by (simp only: n_def length_drop)
    show ?thesis
      unfolding struct_unpack_stamped [OF d] exact
      by (simp add: add.commute add.left_commute)
  qed
  show ?thesis
    unfolding decode_message_def Let_def ix and_then_simps
    using flag fd fmt su by (simp add: n_def py_index_def)
qed

lemma decode_message_zero_width:
  assumes "5 \<le> length message" and "message ! 4 AND SIZE_MASK = 0"
  shows "decode_message mt message = Inl ZeroDivisionError"
  using assms by (simp add: decode_message_def py_index_def Let_def py_floordiv_def)


lemma process_message_retained:
  "message \<noteq> [] \<Longrightarrow> uint (message ! 0) \<in> set types \<Longrightarrow>
   process_message (Some types) message =
     (case decode_message (uint (message ! 0)) message of Inl e \<Rightarrow> Inl e | Inr row \<Rightarrow> Inr [row])"
  by (simp add: process_message_def py_index_def and_then_def)

lemma process_message_skipped:
  "message \<noteq> [] \<Longrightarrow> uint (message ! 0) \<notin> set types \<Longrightarrow>
   process_message (Some types) message = Inr []"
  by (simp add: process_message_def py_index_def)

text \<open>
  The value of one element, from the bytes of the message: the little-endian sum, read
  as the class of the format character says.
\<close>

lemma element_bytes:
  assumes "a + w \<le> length xs"
  shows "le_uint (take w (drop a xs)) = (\<Sum>k<w. uint (xs ! (a + k)) * 256 ^ k)"
proof -
  have len: "length (take w (drop a xs)) = w"
    using assms by simp
  have "le_uint (take w (drop a xs)) = (\<Sum>k<w. uint (take w (drop a xs) ! k) * 256 ^ k)"
    using le_uint_sum [of "take w (drop a xs)"] by (simp only: len)
  also have "\<dots> = (\<Sum>k<w. uint (xs ! (a + k)) * 256 ^ k)"
    using assms by (intro sum.cong) simp_all
  finally show ?thesis .
qed

lemma unpack_value_bytes:
  assumes "length bs = w" and "0 < w"
  shows "unpack_value cls bs =
     (let u = le_uint bs in
      case cls of
        UnsignedInt \<Rightarrow> PInt u
      | SignedInt \<Rightarrow> PInt (if u < 2 ^ (8 * w - 1) then u else u - 2 ^ (8 * w))
      | IEEEFloat \<Rightarrow> PFloat (Float32 (word_of_int u)))"
proof -
  from assms(2) have "8 * w = Suc (8 * w - 1)" by simp
  then have "(2::int) ^ (8 * w) = 2 * 2 ^ (8 * w - 1)"
    by (metis power_Suc)
  then have "(2 * le_uint bs < 2 ^ (8 * w)) = (le_uint bs < 2 ^ (8 * w - 1))"
    by simp
  then show ?thesis
    using assms(1) by (cases cls) (simp_all add: le_sint_def Let_def)
qed

lemma element_value:
  assumes "0 < w" and "i < n" and "length message = 5 + (p + n * w)"
  shows "unpack_value cls (take w (drop (p + i * w) (drop 5 message))) =
     (let u = (\<Sum>k<w. uint (message ! (5 + p + i * w + k)) * 256 ^ k) in
      case cls of
        UnsignedInt \<Rightarrow> PInt u
      | SignedInt \<Rightarrow> PInt (if u < 2 ^ (8 * w - 1) then u else u - 2 ^ (8 * w))
      | IEEEFloat \<Rightarrow> PFloat (Float32 (word_of_int u)))"
proof -
  from assms(2) have "Suc i \<le> n" by simp
  then have "Suc i * w \<le> n * w" by (rule mult_le_mono1)
  then have fit: "5 + p + i * w + w \<le> length message"
    using assms(3) by simp
  have dd: "drop (p + i * w) (drop 5 message) = drop (5 + p + i * w) message"
    by (simp add: add.commute add.left_commute)
  have len: "length (take w (drop (5 + p + i * w) message)) = w"
    using fit by simp
  show ?thesis
    unfolding dd unpack_value_bytes [OF len assms(1)] element_bytes [OF fit] ..
qed

text \<open>The row of a retained message, with the elements as \<open>unpack_value\<close> reads them.\<close>

lemma process_message_row:
  assumes "5 \<le> length message"
    and "uint (message ! 0) \<in> set types"
    and "get_data_char (message ! 4) = Inr c"
    and "fmt_descr c = Some (width, cls)"
    and "prefix = (if message ! 4 AND 0x10 \<noteq> 0 then 6 else 0)"
    and "length (drop 5 message) = prefix + element_count * width"
  shows "process_message (Some types) message =
      Inr [[PInt (uint (message ! 0)), PInt (uint (message ! 2)),
            PFloat (if message ! 4 AND 0x10 \<noteq> 0
                    then FAdd (FloatOfInt (uint (message ! 5) + 256 * uint (message ! 6)
                                  + 65536 * uint (message ! 7) + 16777216 * uint (message ! 8)))
                           (FMul (FloatOfInt (uint (message ! 9) + 256 * uint (message ! 10)))
                              MICROSECOND_TO_SECOND)
                    else NAN)]
           @ map (\<lambda>i. unpack_value cls (take width (drop (prefix + i * width) (drop 5 message))))
               [0 ..< element_count]]"
proof -
  have pos: "0 < width" by (rule fmt_descr_pos [OF assms(4)])
  have ne: "message \<noteq> []" using assms(1) by auto
  have "decode_message (uint (message ! 0)) message =
      Inr ([PInt (uint (message ! 0)), PInt (uint (message ! 2)),
            PFloat (if message ! 4 AND 0x10 \<noteq> 0
                    then FAdd (FloatOfInt (uint (message ! 5) + 256 * uint (message ! 6)
                                  + 65536 * uint (message ! 7) + 16777216 * uint (message ! 8)))
                           (FMul (FloatOfInt (uint (message ! 9) + 256 * uint (message ! 10)))
                              MICROSECOND_TO_SECOND)
                    else NAN)]
           @ map (\<lambda>i. unpack_value cls (take width (drop (prefix + i * width) (drop 5 message))))
               [0 ..< element_count])"
  proof (cases "message ! 4 AND HAS_TIMESTAMP = 0")
    case True
    then have p: "prefix = 0" using assms(5) by (simp add: HAS_TIMESTAMP_def)
    with assms(6) have n: "length message - 5 = element_count * width" by simp
    show ?thesis
      using True pos unfolding decode_message_plain [OF assms(1) True assms(3,4)] n
      by (simp add: p HAS_TIMESTAMP_def add.commute)
  next
    case False
    then have p: "prefix = 6" using assms(5) by (simp add: HAS_TIMESTAMP_def)
    with assms(6) have n: "length message - 11 = element_count * width"
      and l: "11 \<le> length message" by simp_all
    show ?thesis
      using False pos l unfolding decode_message_stamped [OF assms(1) False assms(3,4)] n
      by (simp add: p HAS_TIMESTAMP_def seconds_bytes ticks_bytes add.commute add.left_commute)
  qed
  then show ?thesis
    using assms(2) by (simp add: process_message_retained [OF ne])
qed

subsection \<open>A buffer of frames laid out one after the other\<close>

lemma framed_step:
  assumes fr: "framed c" and dr: "drop n data = c @ rest"
  shows "Suc n < length data"
    and "data ! Suc n = c ! 1"
    and "py_slice data n (Suc (n + unat (data ! Suc n))) = butlast c"
    and "drop (Suc (Suc (n + unat (data ! Suc n)))) data = rest"
proof -
  from fr have len: "2 \<le> length c" "length c = unat (c ! 1) + 2"
    by (simp_all add: framed_def)
  have "length (drop n data) = length c + length rest"
    by (simp add: dr)
  with len show lt: "Suc n < length data" by simp
  have "data ! Suc n = drop n data ! 1"
    using lt by simp
  also have "\<dots> = c ! 1"
    using len by (simp add: dr nth_append)
  finally show b: "data ! Suc n = c ! 1" .
  have "py_slice data n (Suc (n + unat (data ! Suc n))) = take (length c - 1) (c @ rest)"
    using len by (simp add: py_slice_def b dr)
  then show "py_slice data n (Suc (n + unat (data ! Suc n))) = butlast c"
    using len by (simp add: butlast_conv_take)
  have "drop (Suc (Suc (n + unat (data ! Suc n)))) data = drop (length c) (drop n data)"
    using len by (simp add: b add.commute)
  then show "drop (Suc (Suc (n + unat (data ! Suc n)))) data = rest"
    by (simp add: dr)
qed

lemma to_list_loop_chunks:
  assumes "\<forall>c \<in> set cs. framed c \<and> process_message t (butlast c) = Inr (f c)"
    and "drop n data = concat cs"
  shows "to_list_loop t data n acc = Inr (acc @ concat (map f cs))"
  using assms
proof (induction cs arbitrary: n acc)
  case Nil
  then show ?case by (simp add: to_list_loop_end)
next
  case (Cons c cs)
  from Cons.prems have fr: "framed c" and pm: "process_message t (butlast c) = Inr (f c)"
    and dr: "drop n data = c @ concat cs"
    by simp_all
  note st = framed_step [OF fr dr]
  have "to_list_loop t data n acc =
        to_list_loop t data (Suc (Suc (n + unat (data ! Suc n)))) (acc @ f c)"
    by (simp add: to_list_loop_step [OF st(1)] st(3) pm)
  also have "\<dots> = Inr ((acc @ f c) @ concat (map f cs))"
    using Cons.prems(1) by (intro Cons.IH) (simp_all add: st(4))
  finally show ?case by simp
qed

lemma retained_types:
  "retained r w c = (uint (c ! 0) \<in> set ((if r then [1] else []) @ (if w then [2] else []) @ [3]))"
  by (auto simp: retained_def word_uint_eq_iff)

lemma concat_map_filter:
  "concat (map (\<lambda>c. if P c then [g c] else []) cs) = map g (filter P cs)"
  by (induction cs) simp_all

section \<open>The claims\<close>

subsection \<open>C1: the recurrence of the frame scanner\<close>

text \<open>
  Claim C1 says that for every buffer the scanner follows the recurrence
  \<open>frame_start = next_start\<close>, \<open>frame_end = frame_start + buffer[frame_start + 1] + 1\<close>,
  \<open>next_start = frame_end + 1\<close> from the cursor 0, yields the bytes from \<open>frame_start\<close> up
  to \<open>frame_end\<close>, and stops exactly when \<open>next_start\<close> has reached the length of the
  buffer. On the buffer of the single byte \<open>0x01\<close> the scan stops with the cursor at 0,
  before the end of the buffer: the length byte \<^verbatim>\<open>data[1]\<close> does not exist and the
  read raises \<^verbatim>\<open>IndexError\<close>, which is also what \<^verbatim>\<open>to_list\<close> raises.
\<close>

theorem scan_frames_one_byte_buffer:
  "scan_frames [0x01] 0 = ([], Some IndexError)
   \<and> final_cursor 0 (fst (scan_frames [0x01] 0)) < length [0x01 :: byte]
   \<and> to_list [0x01] True True True = Inl IndexError"
  by (simp add: eval_defs)

text \<open>
  Claim C1, as the code has it. For every buffer, the frames that the scanner yields
  follow the recurrence from the cursor 0, and each is read with its length byte inside
  the buffer; the yielded frame is the slice \<^verbatim>\<open>data[frame_start:frame_end]\<close>, that
  is the bytes at the offsets from \<open>frame_start\<close> up to \<open>frame_end\<close> or the end of the
  buffer, whichever comes first; the frames come in strictly increasing offset order; the
  scan ends without an exception exactly when the cursor has reached the length of the
  buffer, and otherwise ends with \<^verbatim>\<open>IndexError\<close> with the cursor on the last byte of
  the buffer; and \<^verbatim>\<open>to_list\<close> processes exactly these frames, in this order.
\<close>

theorem scan_frames_follows_recurrence:
  "follows_recurrence data 0 (fst (scan_frames data 0))
   \<and> sorted_wrt (<) (map fst (fst (scan_frames data 0)))
   \<and> snd (scan_frames data 0) =
       (if length data \<le> final_cursor 0 (fst (scan_frames data 0)) then None
        else Some IndexError)
   \<and> (length data \<le> final_cursor 0 (fst (scan_frames data 0))
      \<or> final_cursor 0 (fst (scan_frames data 0)) + 1 = length data)
   \<and> to_list data processRead processWrite processEvent =
       process_frames (unpack_message_types_to_process processRead processWrite processEvent)
         (fst (scan_frames data 0)) (snd (scan_frames data 0)) []"
proof -
  have rec: "follows_recurrence data 0 (fst (scan_frames data 0))"
    by (rule follows_recurrence_scan)
  from follows_recurrence_sorted [OF rec]
  have "sorted_wrt (<) (map fst (fst (scan_frames data 0)))" by simp
  with rec final_cursor_scan [of data 0] show ?thesis
    by (simp add: to_list_def to_list_loop_scan_frames)
qed

subsection \<open>C2: the type table\<close>

text \<open>
  Claim C2. The lookup \<^verbatim>\<open>__get_data_char\<close> forms the key
  \<open>(payload_type & 0b11000000) | (payload_type & 0b00001111)\<close> and succeeds for exactly
  nine keys: \<open>0x01 0x02 0x04 0x08\<close> give the unsigned formats of 1, 2, 4 and 8 bytes,
  \<open>0x81 0x82 0x84 0x88\<close> the signed formats of 1, 2, 4 and 8 bytes, and \<open>0x44\<close> the float
  format of 4 bytes. For every other key the lookup raises \<^verbatim>\<open>KeyError\<close> with the key
  (the failure the specification calls \<open>UnknownPayloadType\<close>), as it does for the
  payload type \<open>0x48\<close>, a float of width 8.
\<close>

theorem get_data_char_nine_keys:
  "get_data_char payload_type =
     (let key = (payload_type AND 0b11000000) OR (payload_type AND 0b00001111) in
      if key = 0x01 then Inr (CHR ''B'') else if key = 0x02 then Inr (CHR ''H'')
      else if key = 0x04 then Inr (CHR ''I'') else if key = 0x08 then Inr (CHR ''Q'')
      else if key = 0x81 then Inr (CHR ''b'') else if key = 0x82 then Inr (CHR ''h'')
      else if key = 0x84 then Inr (CHR ''i'') else if key = 0x88 then Inr (CHR ''q'')
      else if key = 0x44 then Inr (CHR ''f'') else Inl (KeyError key))
   \<and> map_sum id fmt_descr (get_data_char payload_type) =
     (let key = (payload_type AND 0b11000000) OR (payload_type AND 0b00001111) in
      if key = 0x01 then Inr (Some (1, UnsignedInt)) else if key = 0x02 then Inr (Some (2, UnsignedInt))
      else if key = 0x04 then Inr (Some (4, UnsignedInt)) else if key = 0x08 then Inr (Some (8, UnsignedInt))
      else if key = 0x81 then Inr (Some (1, SignedInt)) else if key = 0x82 then Inr (Some (2, SignedInt))
      else if key = 0x84 then Inr (Some (4, SignedInt)) else if key = 0x88 then Inr (Some (8, SignedInt))
      else if key = 0x44 then Inr (Some (4, IEEEFloat)) else Inl (KeyError key))
   \<and> dom DATA_CHARS = {0x01, 0x02, 0x04, 0x08, 0x81, 0x82, 0x84, 0x88, 0x44}
   \<and> card (dom DATA_CHARS) = 9
   \<and> get_data_char 0x48 = Inl (KeyError 0x48)"
proof -
  have chars: "get_data_char payload_type =
     (let key = (payload_type AND 0b11000000) OR (payload_type AND 0b00001111) in
      if key = 0x01 then Inr (CHR ''B'') else if key = 0x02 then Inr (CHR ''H'')
      else if key = 0x04 then Inr (CHR ''I'') else if key = 0x08 then Inr (CHR ''Q'')
      else if key = 0x81 then Inr (CHR ''b'') else if key = 0x82 then Inr (CHR ''h'')
      else if key = 0x84 then Inr (CHR ''i'') else if key = 0x88 then Inr (CHR ''q'')
      else if key = 0x44 then Inr (CHR ''f'') else Inl (KeyError key))"
    by (simp add: get_data_char_def DATA_CHARS_def Let_def)
  have descr: "map_sum id fmt_descr (get_data_char payload_type) =
     (let key = (payload_type AND 0b11000000) OR (payload_type AND 0b00001111) in
      if key = 0x01 then Inr (Some (1, UnsignedInt)) else if key = 0x02 then Inr (Some (2, UnsignedInt))
      else if key = 0x04 then Inr (Some (4, UnsignedInt)) else if key = 0x08 then Inr (Some (8, UnsignedInt))
      else if key = 0x81 then Inr (Some (1, SignedInt)) else if key = 0x82 then Inr (Some (2, SignedInt))
      else if key = 0x84 then Inr (Some (4, SignedInt)) else if key = 0x88 then Inr (Some (8, SignedInt))
      else if key = 0x44 then Inr (Some (4, IEEEFloat)) else Inl (KeyError key))"
    unfolding chars by (simp add: Let_def fmt_descr_def)
  have keys: "dom DATA_CHARS = {0x01, 0x02, 0x04, 0x08, 0x81, 0x82, 0x84, 0x88, 0x44}"
    by (auto simp: DATA_CHARS_def)
  have "card (dom DATA_CHARS) = 9"
    unfolding keys by simp
  moreover have "get_data_char 0x48 = Inl (KeyError 0x48)"
    by (simp add: get_data_char_def DATA_CHARS_def)
  ultimately show ?thesis
    using chars descr keys by simp
qed

subsection \<open>C3: the layout of a frame\<close>

text \<open>
  Claim C3. For a frame whose message type is among those to process, with its five
  header bytes, a payload type in the table and a payload of \<open>prefix + element_count * width\<close>
  bytes, where \<open>prefix\<close> is 6 when bit 4 of the payload type is set and 0 otherwise: the
  row holds the message type from byte 0 and the address from byte 2; the payload type is
  byte 4; the payload is every byte of the frame from byte 5 on, the last byte of the
  frame included; with the flag set the first four payload bytes are the seconds and the
  next two the ticks, both little-endian, and without it the timestamp is \<open>NAN\<close>; the
  elements are \<open>element_count\<close> values of \<open>width\<close> bytes each that follow the prefix,
  each read little-endian. Little-endian is written out: element \<open>i\<close> has the unsigned
  value \<open>u\<close>, the sum of its bytes at the frame offsets \<open>5 + prefix + i * width + k\<close>, byte
  \<open>k\<close> weighted with \<open>256 ^ k\<close>; an unsigned element is \<open>u\<close>, a signed element is the
  two's complement reading of \<open>u\<close>, and a float element is the binary32 value with the
  bit pattern \<open>u\<close>.
\<close>

theorem process_message_layout:
  assumes "5 \<le> length message"
    and "uint (message ! 0) \<in> set types"
    and "get_data_char (message ! 4) = Inr c"
    and "fmt_descr c = Some (width, cls)"
    and "prefix = (if message ! 4 AND 0x10 \<noteq> 0 then 6 else 0)"
    and "length (drop 5 message) = prefix + element_count * width"
  shows "process_message (Some types) message =
      Inr [[PInt (uint (message ! 0)), PInt (uint (message ! 2)),
            PFloat (if message ! 4 AND 0x10 \<noteq> 0
                    then FAdd (FloatOfInt (uint (message ! 5) + 256 * uint (message ! 6)
                                  + 65536 * uint (message ! 7) + 16777216 * uint (message ! 8)))
                           (FMul (FloatOfInt (uint (message ! 9) + 256 * uint (message ! 10)))
                              MICROSECOND_TO_SECOND)
                    else NAN)]
           @ map (\<lambda>i. let u = (\<Sum>k<width. uint (message ! (5 + prefix + i * width + k)) * 256 ^ k)
                       in case cls of
                            UnsignedInt \<Rightarrow> PInt u
                          | SignedInt \<Rightarrow>
                              PInt (if u < 2 ^ (8 * width - 1) then u else u - 2 ^ (8 * width))
                          | IEEEFloat \<Rightarrow> PFloat (Float32 (word_of_int u)))
               [0 ..< element_count]]"
proof -
  have pos: "0 < width" by (rule fmt_descr_pos [OF assms(4)])
  have len: "length message = 5 + (prefix + element_count * width)"
    using assms(1,6) by simp
  have "map (\<lambda>i. unpack_value cls (take width (drop (prefix + i * width) (drop 5 message))))
          [0 ..< element_count] =
        map (\<lambda>i. let u = (\<Sum>k<width. uint (message ! (5 + prefix + i * width + k)) * 256 ^ k)
                 in case cls of
                      UnsignedInt \<Rightarrow> PInt u
                    | SignedInt \<Rightarrow>
                        PInt (if u < 2 ^ (8 * width - 1) then u else u - 2 ^ (8 * width))
                    | IEEEFloat \<Rightarrow> PFloat (Float32 (word_of_int u)))
          [0 ..< element_count]"
  proof (rule map_cong [OF refl])
    fix i assume "i \<in> set [0 ..< element_count]"
    then have "i < element_count" by simp
    then show "unpack_value cls (take width (drop (prefix + i * width) (drop 5 message))) =
        (let u = (\<Sum>k<width. uint (message ! (5 + prefix + i * width + k)) * 256 ^ k)
         in case cls of
              UnsignedInt \<Rightarrow> PInt u
            | SignedInt \<Rightarrow>
                PInt (if u < 2 ^ (8 * width - 1) then u else u - 2 ^ (8 * width))
            | IEEEFloat \<Rightarrow> PFloat (Float32 (word_of_int u)))"
      by (rule element_value [OF pos _ len])
  qed
  with process_message_row [OF assms] show ?thesis
    by simp
qed

text \<open>
  A frame of type 3 for address 7 with payload type \<open>0x92\<close> (timestamp flag, signed, width
  2): seconds 1, ticks 2, and the two elements \<open>0x1234\<close> and \<open>0xFFFE\<close>, that is 4660
  and -2.
\<close>

theorem process_message_layout_witness:
  "process_message (Some [1, 2, 3])
     [0x03, 0x0E, 0x07, 0x00, 0x92, 0x01, 0x00, 0x00, 0x00, 0x02, 0x00, 0x34, 0x12, 0xFE, 0xFF]
   = Inr [[PInt 3, PInt 7,
           PFloat (FAdd (FloatOfInt 1) (FMul (FloatOfInt 2) (FloatLit 32 (- 6)))),
           PInt 4660, PInt (- 2)]]"
proof -
  have two: "[0 ..< 2] = [0, Suc 0]"
    by (simp add: upt_rec)
  have pair: "(\<Sum>k<2. f k) = f 0 + f (Suc 0)" for f :: "nat \<Rightarrow> int"
    by (simp add: numeral_2_eq_2)
  have c: "get_data_char
      ([0x03, 0x0E, 0x07, 0x00, 0x92, 0x01, 0x00, 0x00, 0x00, 0x02, 0x00, 0x34, 0x12, 0xFE, 0xFF] ! 4)
      = Inr (CHR ''h'')"
    by (simp add: get_data_char_def DATA_CHARS_def)
  have d: "fmt_descr (CHR ''h'') = Some (2, SignedInt)"
    by (simp add: fmt_descr_def)
  show ?thesis
    using process_message_layout [of "[0x03, 0x0E, 0x07, 0x00, 0x92, 0x01, 0x00, 0x00, 0x00, 0x02, 0x00, 0x34, 0x12, 0xFE, 0xFF]"
      "[1, 2, 3]", OF _ _ c d, of 6 2]
    by (simp add: MICROSECOND_TO_SECOND_def two pair)
qed

subsection \<open>C4: the timestamp\<close>



subsection \<open>C5: filtering by category and the order of the rows\<close>

text \<open>
  Claim C5. Let the buffer be a sequence of chunks, each laid out as a frame, and let every
  chunk whose message type is to be processed have a row. Then \<^verbatim>\<open>to_list\<close> with the
  event category included returns the rows of exactly the chunks whose type is to be
  processed, in the order of the chunks in the buffer, each as often as its chunk occurs:
  nothing is reordered, dropped or merged. With \<open>processRead\<close> true and \<open>processWrite\<close>
  false these are the rows of the frames of types 1 and 3, and no row of a frame of type 2.
\<close>

theorem to_list_keeps_frame_order:
  assumes "\<forall>c \<in> set cs. framed c"
    and "\<forall>c \<in> set cs. retained processRead processWrite c \<longrightarrow> \<not> isl (chunk_row c)"
  shows "to_list (concat cs) processRead processWrite True =
     Inr (map (\<lambda>c. projr (chunk_row c)) (filter (retained processRead processWrite) cs))"
proof -
  define types where
    "types = (if processRead then [1] else []) @ (if processWrite then [2] else []) @ [3::int]"
  define f where
    "f c = (if retained processRead processWrite c then [projr (chunk_row c)] else [])" for c
  have t: "unpack_message_types_to_process processRead processWrite True = Some types"
    by (simp add: unpack_message_types_to_process_def types_def)
  have "framed c \<and> process_message (Some types) (butlast c) = Inr (f c)" if c: "c \<in> set cs" for c
  proof -
    from assms(1) c have fr: "framed c" by blast
    then have lb: "0 < length (butlast c)"
      by (simp add: framed_def)
    have ne: "butlast c \<noteq> []"
      by (rule length_greater_0_conv [THEN iffD1, OF lb])
    have hd: "butlast c ! 0 = c ! 0"
      using lb by (rule nth_butlast)
    have r: "retained processRead processWrite c = (uint (c ! 0) \<in> set types)"
      by (simp add: retained_types types_def)
    show ?thesis
    proof (cases "retained processRead processWrite c")
      case True
      with assms(2) c obtain row where row: "chunk_row c = Inr row"
        by (cases "chunk_row c") auto
      then have "decode_message (uint (butlast c ! 0)) (butlast c) = Inr row"
        by (simp add: chunk_row_def hd)
      with True r fr show ?thesis
        by (simp add: process_message_retained [OF ne] hd f_def row)
    next
      case False
      with r fr show ?thesis
        by (simp add: process_message_skipped [OF ne] hd f_def)
    qed
  qed
  then have "to_list_loop (Some types) (concat cs) 0 [] = Inr ([] @ concat (map f cs))"
    by (intro to_list_loop_chunks) simp_all
  moreover have "f = (\<lambda>c. if retained processRead processWrite c then [projr (chunk_row c)] else [])"
    by (rule ext) (simp add: f_def)
  ultimately show ?thesis
    by (simp add: to_list_def t concat_map_filter)
qed

text \<open>
  A buffer of one frame of each of the types 1, 2 and 3, decoded without the write
  category: the rows of the frames of type 1 and of type 3, in this order.
\<close>

theorem to_list_keeps_frame_order_witness:
  "to_list ([0x01, 0x05, 0x05, 0x00, 0x01, 0x2A, 0x38]
            @ [0x02, 0x05, 0x07, 0x00, 0x81, 0xFF, 0x8E]
            @ [0x03, 0x0C, 0x07, 0x00, 0x12, 0x01, 0x00, 0x00, 0x00, 0x02, 0x00, 0x34, 0x12, 0x71])
     True False True
   = Inr [[PInt 1, PInt 5, PFloat NAN, PInt 42],
          [PInt 3, PInt 7,
           PFloat (FAdd (FloatOfInt 1) (FMul (FloatOfInt 2) MICROSECOND_TO_SECOND)),
           PInt 4660]]"
  using to_list_keeps_frame_order [of "[[0x01, 0x05, 0x05, 0x00, 0x01, 0x2A, 0x38],
                 [0x02, 0x05, 0x07, 0x00, 0x81, 0xFF, 0x8E],
                 [0x03, 0x0C, 0x07, 0x00, 0x12, 0x01, 0x00, 0x00, 0x00, 0x02, 0x00, 0x34, 0x12, 0x71]]"
      True False]
  by (simp add: framed_def retained_def chunk_row_def decode_message_def py_index_def and_then_def
      HAS_TIMESTAMP_def SIZE_MASK_def py_floordiv_def get_payload_string_def get_data_char_def
      DATA_CHARS_def struct_unpack_def fmt_descr_def)

subsection \<open>C6: a payload that is not a whole number of elements\<close>

text \<open>
  Claim C6. Let the loop stand at a frame whose message type is to be processed, with its
  five header bytes and a payload type in the table, and let the length of the payload
  minus the timestamp prefix (6 with the flag, 0 without) not be a multiple of the width
  of the element. Then decoding the frame raises \<^verbatim>\<open>struct.error\<close> (the failure the
  specification calls \<open>MalformedPayload\<close>), and so does \<^verbatim>\<open>to_list\<close>, whatever rows it
  has collected: no row is returned for the frame.
\<close>

theorem malformed_payload_raises:
  assumes "Suc n < length data"
    and "message = py_slice data n (n + unat (data ! (n + 1)) + 1)"
    and "5 \<le> length message"
    and "uint (message ! 0) \<in> set types"
    and "get_data_char (message ! 4) = Inr c"
    and "fmt_descr c = Some (width, cls)"
    and "(int (length (drop 5 message)) - (if message ! 4 AND HAS_TIMESTAMP \<noteq> 0 then 6 else 0))
           mod int width \<noteq> 0"
  shows "decode_message (uint (message ! 0)) message = Inl StructError
    \<and> process_message (Some types) message = Inl StructError
    \<and> to_list_loop (Some types) data n acc = Inl StructError"
proof -
  have d: "decode_message (uint (message ! 0)) message = Inl StructError"
  proof (cases "message ! 4 AND HAS_TIMESTAMP = 0")
    case True
    with assms(7) have "int (length message - 5) mod int width \<noteq> 0" by simp
    then have "(length message - 5) mod width \<noteq> 0"
      by (simp add: zmod_int [symmetric] del: of_nat_diff)
    then show ?thesis
      by (simp add: decode_message_plain [OF assms(3) True assms(5,6)])
  next
    case False
    have "\<not> (11 \<le> length message \<and> (length message - 11) mod width = 0)"
    proof
      assume a: "11 \<le> length message \<and> (length message - 11) mod width = 0"
      then have "int (length (drop 5 message)) - 6 = int (length message - 11)"
        by auto
      with a have "(int (length (drop 5 message)) - 6) mod int width = 0"
        by (simp add: zmod_int [symmetric] del: of_nat_diff length_drop)
      with assms(7) False show False by simp
    qed
    then show ?thesis
      by (simp add: decode_message_stamped [OF assms(3) False assms(5,6)])
  qed
  have "message \<noteq> []" using assms(3) by auto
  then have p: "process_message (Some types) message = Inl StructError"
    using assms(4) by (simp add: process_message_retained d)
  have "to_list_loop (Some types) data n acc = Inl StructError"
    using p assms(2) by (simp add: to_list_loop_step [OF assms(1)])
  with d p show ?thesis by simp
qed

text \<open>
  A frame of type 1 with payload type \<open>0x02\<close> (unsigned, width 2) and a payload of three
  bytes.
\<close>

theorem malformed_payload_raises_witness:
  "to_list [0x01, 0x07, 0x05, 0x00, 0x02, 0x2A, 0x00, 0x01, 0x38] True True True = Inl StructError"
  using malformed_payload_raises [of 0 "[0x01, 0x07, 0x05, 0x00, 0x02, 0x2A, 0x00, 0x01, 0x38]"
      "[0x01, 0x07, 0x05, 0x00, 0x02, 0x2A, 0x00, 0x01]" "[1, 2, 3]" "CHR ''H''" 2 UnsignedInt "[]"]
  by (simp add: to_list_def unpack_message_types_to_process_def py_slice_def HAS_TIMESTAMP_def
      get_data_char_def DATA_CHARS_def fmt_descr_def)

subsection \<open>C7: the example of the specification\<close>

text \<open>
  Claim C7 says that the buffer \<open>[0x01, 0x07, 0x05, 0x00, 0x01, 0x2A, 0x00, CHKSUM]\<close>
  decodes to one row with message type 1, address 5, no timestamp and the elements
  \<open>[42]\<close>. With the checksum \<open>0x38\<close> the row has the three elements 42, 0 and 56: the
  length byte 7 makes the frame the whole buffer, and the three bytes after the payload
  type are three elements of width 1.
\<close>

theorem spec_example_elements:
  "to_list [0x01, 0x07, 0x05, 0x00, 0x01, 0x2A, 0x00, 0x38] True True True
     = Inr [[PInt 1, PInt 5, PFloat NAN, PInt 42, PInt 0, PInt 56]]
   \<and> to_list [0x01, 0x07, 0x05, 0x00, 0x01, 0x2A, 0x00, 0x38] True True True
     \<noteq> Inr [[PInt 1, PInt 5, PFloat NAN, PInt 42]]"
  by (simp add: eval_defs)

text \<open>
  Claim C7, as the code has it. The buffer decodes to exactly one row, with message type
  1, address 5, the timestamp \<open>NAN\<close> and the elements 42, 0 and the value of the last
  byte.
\<close>

theorem spec_example_row:
  "to_list [0x01, 0x07, 0x05, 0x00, 0x01, 0x2A, 0x00, chksum] True True True
     = Inr [[PInt 1, PInt 5, PFloat NAN, PInt 42, PInt 0, PInt (uint chksum)]]"
  by (simp add: eval_defs)

subsection \<open>C8: the list of the message types to process\<close>

text \<open>
  Claim C8. With \<open>processEvent\<close> true, \<^verbatim>\<open>__unpack_message_types_to_process\<close> returns
  the list that holds 1 if \<open>processRead\<close>, then 2 if \<open>processWrite\<close>, then 3. With
  \<open>processEvent\<close> false it returns no list, whatever the other two flags are, and the
  test of a message type against its value raises \<^verbatim>\<open>TypeError\<close>.
\<close>

theorem unpack_message_types_needs_event:
  "unpack_message_types_to_process processRead processWrite True
     = Some ((if processRead then [1] else []) @ (if processWrite then [2] else []) @ [3])
   \<and> unpack_message_types_to_process processRead processWrite False = None
   \<and> py_in message_type (unpack_message_types_to_process processRead processWrite False)
     = Inl TypeError"
  by (simp add: unpack_message_types_to_process_def)

subsection \<open>C9: a frame that runs past the end of the buffer\<close>

text \<open>
  Claim C9 says that a buffer whose last frame runs past the end of the buffer makes the
  decoding fail with \<open>TruncatedFrame\<close> and yields no row for that frame. In the buffer
  \<open>[0x01, 0x07, 0x05, 0x00, 0x01, 0x2A]\<close> of six bytes the frame ends at offset 8, and
  \<^verbatim>\<open>to_list\<close> returns one row, read from the six bytes that are there.
\<close>

theorem truncated_frame_emits_row:
  "fst (scan_frames [0x01, 0x07, 0x05, 0x00, 0x01, 0x2A] 0)
     = [(0, 8, [0x01, 0x07, 0x05, 0x00, 0x01, 0x2A])]
   \<and> length [0x01, 0x07, 0x05, 0x00, 0x01, 0x2A :: byte] < 8
   \<and> to_list [0x01, 0x07, 0x05, 0x00, 0x01, 0x2A] True True True
     = Inr [[PInt 1, PInt 5, PFloat NAN, PInt 42]]"
  by (simp add: eval_defs)

text \<open>
  Claim C9, as the code has it. When the length byte of the frame at the cursor is inside
  the buffer and the frame ends at or after the end of the buffer, the frame is the rest
  of the buffer: it is processed as any other frame is, its rows are appended or its
  exception is raised, and the loop ends after it. No exception is raised for the
  missing bytes themselves.
\<close>

theorem truncated_frame_is_clipped:
  assumes "Suc n < length data"
    and "length data \<le> n + unat (data ! (n + 1)) + 1"
  shows "to_list_loop types data n acc =
     (case process_message types (drop n data) of
        Inl e \<Rightarrow> Inl e
      | Inr rows \<Rightarrow> Inr (acc @ rows))"
proof -
  have "py_slice data n (Suc (n + unat (data ! Suc n))) = drop n data"
    using assms by (simp add: py_slice_def)
  moreover have "to_list_loop types data (Suc (Suc (n + unat (data ! Suc n)))) rows = Inr rows"
    for rows
    using assms by (simp add: to_list_loop_end)
  ultimately show ?thesis
    by (simp add: to_list_loop_step [OF assms(1)] cong: sum.case_cong)
qed

text \<open>
  The buffer of six bytes whose length byte announces a frame that ends at offset 8.
\<close>

theorem truncated_frame_is_clipped_witness:
  "to_list_loop (Some [1, 2, 3]) [0x01, 0x07, 0x05, 0x00, 0x01, 0x2A] 0 []
     = Inr [[PInt 1, PInt 5, PFloat NAN, PInt 42]]"
  using truncated_frame_is_clipped [of 0 "[0x01, 0x07, 0x05, 0x00, 0x01, 0x2A]" "Some [1, 2, 3]" "[]"]
  by (simp add: eval_defs)

subsection \<open>C10: a payload type with width 0\<close>

text \<open>
  Claim C10. Let the loop stand at a frame whose message type is to be processed, with its
  five header bytes, and let the bits 0 to 3 of the payload type be zero. Then decoding
  the frame raises \<^verbatim>\<open>ZeroDivisionError\<close>, and so does \<^verbatim>\<open>to_list\<close>: the element
  count is computed before the table is looked up, so no \<^verbatim>\<open>KeyError\<close> is raised and
  no row is returned.
\<close>

theorem zero_width_raises:
  assumes "Suc n < length data"
    and "message = py_slice data n (n + unat (data ! (n + 1)) + 1)"
    and "5 \<le> length message"
    and "uint (message ! 0) \<in> set types"
    and "message ! 4 AND SIZE_MASK = 0"
  shows "decode_message (uint (message ! 0)) message = Inl ZeroDivisionError
    \<and> process_message (Some types) message = Inl ZeroDivisionError
    \<and> to_list_loop (Some types) data n acc = Inl ZeroDivisionError"
proof -
  have d: "decode_message (uint (message ! 0)) message = Inl ZeroDivisionError"
    using assms(3,5) by (rule decode_message_zero_width)
  have "message \<noteq> []" using assms(3) by auto
  then have p: "process_message (Some types) message = Inl ZeroDivisionError"
    using assms(4) by (simp add: process_message_retained d)
  have "to_list_loop (Some types) data n acc = Inl ZeroDivisionError"
    using p assms(2) by (simp add: to_list_loop_step [OF assms(1)])
  with d p show ?thesis by simp
qed

text \<open>
  A frame with payload type \<open>0x40\<close>: the division raises, although the key \<open>0x40\<close> is not
  in the table either.
\<close>

theorem zero_width_raises_witness:
  "to_list [0x01, 0x05, 0x05, 0x00, 0x40, 0x2A, 0x38] True True True = Inl ZeroDivisionError
   \<and> get_data_char 0x40 = Inl (KeyError 0x40)"
  using zero_width_raises [of 0 "[0x01, 0x05, 0x05, 0x00, 0x40, 0x2A, 0x38]" "[0x01, 0x05, 0x05, 0x00, 0x40, 0x2A]"
      "[1, 2, 3]" "[]"]
  by (simp add: to_list_def unpack_message_types_to_process_def py_slice_def SIZE_MASK_def
      get_data_char_def DATA_CHARS_def)

end
